theory Spec2Isabelle
  imports Complex_Main
begin

section \<open>Data model (types.go, tire.go)\<close>

text \<open>
  The Go operations return a pair of a value and an \<open>error\<close>, where the error may be
  \<open>nil\<close>; that pair is modelled as a product with an \<open>error option\<close>. A run-time panic
  (an index outside an array, slice or string, a nil dereference, the explicit
  \<open>panic("implement me")\<close>) is not a returned error: it is the left summand of the
  result type \<open>'a go\<close>.
\<close>

datatype error = ErrInvalidHash | ErrSyntax | ErrRange

datatype panic = IndexOutOfRange | NilDereference | ImplementMe

type_synonym 'a go = "panic + 'a"

text \<open>
  \<open>Points\<close> holds two \<open>float64\<close> coordinates. They are modelled as reals: the only
  arithmetic the program does on them is the comparison with a midpoint, and the midpoints
  (multiples of \<open>180 / 2 ^ 20\<close>, resp. \<open>90 / 2 ^ 20\<close>) are computed without rounding in
  \<open>float64\<close>. NaN and the infinities are outside the model.
\<close>

record Points =
  Longitude :: real
  Latitude :: real

record GeoEntry =
  Points :: "(string \<rightharpoonup> Points list) option"
  Hash :: string

text \<open>
  A trie node: 32 child slots (a slot is \<open>None\<close> for a nil pointer), the passage
  count, the terminal flag (\<open>end\<close> in the source) and the embedded entry. Every node is
  created by \<open>&geoTireNode{}\<close> and stored in exactly one slot, so the structure is a
  tree and in-place mutation is modelled by rebuilding the path to the mutated node.
\<close>

datatype geoTireNode =
  geoTireNode (children: "geoTireNode option list") (passCnt: int) (is_end: bool)
    (GeoEntry: GeoEntry)

text \<open>
  The service: the root pointer, which \<open>NewTireTreeGeoService\<close> sets to a new node and
  nothing assigns afterwards. The lock is not modelled: each operation holds it from its
  first to its last trie access, so operations run one after the other.
\<close>

record TireTreeGeoService =
  root :: geoTireNode

definition new_geoTireNode :: geoTireNode where
  "new_geoTireNode = geoTireNode (replicate 32 None) 0 False \<lparr>Points = None, Hash = []\<rparr>"

definition NewTireTreeGeoService :: TireTreeGeoService where
  "NewTireTreeGeoService = \<lparr>root = new_geoTireNode\<rparr>"

section \<open>Codec\<close>

definition Base32 :: "char list" where
  "Base32 = ''0123456789BCDEFGHJKMNPQRSTUVWXYZ''"

text \<open>Arithmetic on a Go \<open>byte\<close> wraps modulo 256.\<close>

definition byte :: "int \<Rightarrow> int" where
  "byte x = x mod 256"

definition base32ToIndex :: "char \<Rightarrow> int" where
  "base32ToIndex bits =
     (let b = (of_char bits :: int) in
      if of_char CHR ''0'' \<le> b \<and> b \<le> of_char CHR ''9''
        then byte (b - of_char CHR ''0'')
      else if of_char CHR ''B'' \<le> b \<and> b \<le> of_char CHR ''H''
        then byte (b - of_char CHR ''B'' + 26)
      else if of_char CHR ''J'' \<le> b \<and> b \<le> of_char CHR ''K''
        then byte (b - of_char CHR ''J'' + 33)
      else if of_char CHR ''M'' \<le> b \<and> b \<le> of_char CHR ''N''
        then byte (b - of_char CHR ''J'' + 35)
      else if of_char CHR ''P'' \<le> b \<and> b \<le> of_char CHR ''Z''
        then byte (b - of_char CHR ''J'' + 37)
      else - 1)"

text \<open>
  \<open>getBinaryBits\<close> appends one bit to the builder per call and recurses until the
  builder holds 20 characters.
\<close>

function getBinaryBits :: "string \<Rightarrow> real \<Rightarrow> real \<Rightarrow> real \<Rightarrow> string" where
  "getBinaryBits bits val start end' =
     (if val < (start + end') / 2
      then (if 20 \<le> length (bits @ ''0'') then bits @ ''0''
            else getBinaryBits (bits @ ''0'') val start ((start + end') / 2))
      else (if 20 \<le> length (bits @ ''1'') then bits @ ''1''
            else getBinaryBits (bits @ ''1'') val ((start + end') / 2) end'))"
  by pat_completeness auto
termination
  by (relation "measure (\<lambda>(bits, val, start, end'). 20 - length bits)") auto

declare getBinaryBits.simps [simp del]

text \<open>Indexing a string or a slice with a run-time index panics outside \<open>[0, len)\<close>.\<close>

definition index_at :: "'a list \<Rightarrow> int \<Rightarrow> 'a go" where
  "index_at s j = (if 0 \<le> j \<and> j < int (length s) then Inr (s ! nat j) else Inl IndexOutOfRange)"

text \<open>
  \<open>strconv.ParseInt(s, 2, 64)\<close>: an optional sign, then at least one binary digit and
  nothing else (\<open>ErrSyntax\<close> otherwise); a value outside \<open>int64\<close> is \<open>ErrRange\<close>, returned
  with the nearest bound.
\<close>

fun parse_digits :: "string \<Rightarrow> nat \<Rightarrow> nat option" where
  "parse_digits [] acc = Some acc"
| "parse_digits (c # cs) acc =
     (if c = CHR ''0'' then parse_digits cs (2 * acc)
      else if c = CHR ''1'' then parse_digits cs (2 * acc + 1)
      else None)"

definition ParseInt2 :: "string \<Rightarrow> int \<times> error option" where
  "ParseInt2 s =
     (if s = [] then (0, Some ErrSyntax)
      else
        let neg = (hd s = CHR ''-'');
            s0 = (if hd s = CHR ''+'' \<or> hd s = CHR ''-'' then tl s else s)
        in if s0 = [] then (0, Some ErrSyntax)
           else case parse_digits s0 0 of
                  None \<Rightarrow> (0, Some ErrSyntax)
                | Some n \<Rightarrow>
                    if \<not> neg \<and> 2 ^ 63 \<le> n then (2 ^ 63 - 1, Some ErrRange)
                    else if neg \<and> 2 ^ 63 < n then (- (2 ^ 63), Some ErrRange)
                    else (if neg then - int n else int n, None))"

text \<open>
  The loop of \<open>GeoHash\<close> over \<open>i = 0 .. 39\<close>, with the two builders as arguments.
  \<open>(i - 1) >> 1\<close> on a Go \<open>int\<close> is the floor of \<open>(i - 1) / 2\<close>.
\<close>

function GeoHash_loop ::
  "string \<Rightarrow> string \<Rightarrow> int \<Rightarrow> string \<Rightarrow> string \<Rightarrow> (string \<times> error option) go" where
  "GeoHash_loop lngBits latBits i geoHash fiveBitsTmp =
     (if \<not> i < 40 then Inr (geoHash, None)
      else
        case (if i mod 1 = 1
                then map_sum id (\<lambda>c. fiveBitsTmp @ [c]) (index_at lngBits ((i - 1) div 2))
              else if i mod 2 = 0
                then map_sum id (\<lambda>c. fiveBitsTmp @ [c]) (index_at latBits ((i - 1) div 2))
              else Inr fiveBitsTmp) of
          Inl p \<Rightarrow> Inl p
        | Inr tmp \<Rightarrow>
            if i mod 5 \<noteq> 0 then GeoHash_loop lngBits latBits (i + 1) geoHash tmp
            else (case ParseInt2 tmp of
                    (val, Some err) \<Rightarrow> Inr ([], Some err)
                  | (val, None) \<Rightarrow>
                      (case index_at Base32 val of
                         Inl p \<Rightarrow> Inl p
                       | Inr c \<Rightarrow> GeoHash_loop lngBits latBits (i + 1) (geoHash @ [c]) [])))"
  by pat_completeness auto
termination
  by (relation "measure (\<lambda>(lngBits, latBits, i, geoHash, fiveBitsTmp). nat (40 - i))") auto

declare GeoHash_loop.simps [simp del]

definition GeoHash :: "Points \<Rightarrow> (string \<times> error option) go" where
  "GeoHash points =
     (let lngBits = getBinaryBits [] (Longitude points) (- 180) 180;
          latBits = getBinaryBits [] (Latitude points) (- 90) 90
      in GeoHash_loop lngBits latBits 0 [] [])"

definition GeoDistance :: "Points \<Rightarrow> Points \<Rightarrow> (error option \<times> real) go" where
  "GeoDistance points points2 = Inl ImplementMe"

section \<open>Trie\<close>

definition GeoEntry_add :: "GeoEntry \<Rightarrow> Points \<Rightarrow> string \<Rightarrow> GeoEntry" where
  "GeoEntry_add g p hash =
     (let m = (case Points g of None \<Rightarrow> Map.empty | Some m \<Rightarrow> m)
      in g\<lparr>Points := Some (m(hash \<mapsto> (case m hash of None \<Rightarrow> [] | Some ps \<Rightarrow> ps) @ [p]))\<rparr>)"

definition GeoEntry_get :: "GeoEntry \<Rightarrow> string \<Rightarrow> Points list" where
  "GeoEntry_get g hash =
     (case Points g of
        None \<Rightarrow> []
      | Some m \<Rightarrow> (case m hash of None \<Rightarrow> [] | Some ps \<Rightarrow> ps))"

text \<open>
  \<open>get\<close>: the walk from \<open>move\<close> along the remaining symbols. The test
  \<open>index == -1 || move.children[index] == nil\<close> evaluates its second disjunct, and so
  indexes the 32-slot array, whenever the index is not \<open>-1\<close>.
\<close>

fun get_loop :: "geoTireNode \<Rightarrow> string \<Rightarrow> (geoTireNode option \<times> error option) go" where
  "get_loop move [] = Inr (Some move, None)"
| "get_loop move (c # hash) =
     (let index = base32ToIndex c in
      if index = - 1 then Inr (None, Some ErrInvalidHash)
      else if index < 0 \<or> 32 \<le> index then Inl IndexOutOfRange
      else (case children move ! nat index of
              None \<Rightarrow> Inr (None, Some ErrInvalidHash)
            | Some ch \<Rightarrow> get_loop ch hash))"

definition get :: "TireTreeGeoService \<Rightarrow> string \<Rightarrow> (geoTireNode option \<times> error option) go" where
  "get t hash = get_loop (root t) hash"

definition GeoPosition :: "TireTreeGeoService \<Rightarrow> string \<Rightarrow> (Points list \<times> error option) go" where
  "GeoPosition t hash =
     (case get t hash of
        Inl p \<Rightarrow> Inl p
      | Inr (targets, Some err) \<Rightarrow> Inr ([], Some err)
      | Inr (None, None) \<Rightarrow> Inr ([], None)
      | Inr (Some n, None) \<Rightarrow>
          if \<not> is_end n then Inr ([], None) else Inr (GeoEntry_get (GeoEntry n) hash, None))"

text \<open>
  \<open>dfs\<close>: the node's own entry first when it is terminal, then the children in slot
  order; an error of a child's traversal ends the loop with the entries collected so far.
  The source logs in that branch; the branch is never taken, since no traversal returns
  an error (lemma \<open>dfs_no_error\<close>).
\<close>

fun dfs :: "geoTireNode \<Rightarrow> GeoEntry list \<times> error option"
  and dfs_children :: "geoTireNode option list \<Rightarrow> GeoEntry list \<Rightarrow> GeoEntry list \<times> error option"
where
  "dfs (geoTireNode cs n e g) = dfs_children cs (if e then [g] else [])"
| "dfs_children [] entries = (entries, None)"
| "dfs_children (None # cs) entries = dfs_children cs entries"
| "dfs_children (Some ch # cs) entries =
     (case dfs ch of
        (childEntries, Some err) \<Rightarrow> (entries, Some err)
      | (childEntries, None) \<Rightarrow> dfs_children cs (entries @ childEntries))"

definition FindByPrefix :: "TireTreeGeoService \<Rightarrow> string \<Rightarrow> (GeoEntry list \<times> error option) go" where
  "FindByPrefix t prefix =
     (case get t prefix of
        Inl p \<Rightarrow> Inl p
      | Inr (target, Some err) \<Rightarrow> Inr ([], Some err)
      | Inr (None, None) \<Rightarrow> Inr ([], None)
      | Inr (Some n, None) \<Rightarrow> Inr (dfs n))"

text \<open>
  The deletion walk of \<open>GeoDel\<close>. It returns the rebuilt node together with the outcome,
  so that what was mutated before a panic stays mutated.
\<close>

fun GeoDel_loop :: "geoTireNode \<Rightarrow> string \<Rightarrow> geoTireNode \<times> (bool \<times> error option) go" where
  "GeoDel_loop move [] =
     (geoTireNode (children move) (passCnt move) False (GeoEntry move), Inr (True, None))"
| "GeoDel_loop move (c # hash) =
     (let index = base32ToIndex c in
      if index < 0 \<or> 32 \<le> index then (move, Inl IndexOutOfRange)
      else (case children move ! nat index of
              None \<Rightarrow> (move, Inl NilDereference)
            | Some ch \<Rightarrow>
                if passCnt ch - 1 = 0
                then (geoTireNode ((children move)[nat index := None]) (passCnt move)
                        (is_end move) (GeoEntry move), Inr (True, None))
                else
                  let (ch', res) =
                        GeoDel_loop (geoTireNode (children ch) (passCnt ch - 1) (is_end ch)
                                       (GeoEntry ch)) hash
                  in (geoTireNode ((children move)[nat index := Some ch']) (passCnt move)
                        (is_end move) (GeoEntry move), res)))"

definition GeoDel ::
  "TireTreeGeoService \<Rightarrow> string \<Rightarrow> TireTreeGeoService \<times> (bool \<times> error option) go" where
  "GeoDel t hash =
     (case get t hash of
        Inl p \<Rightarrow> (t, Inl p)
      | Inr (target, Some err) \<Rightarrow> (t, Inr (False, Some err))
      | Inr (None, None) \<Rightarrow> (t, Inr (False, Some ErrInvalidHash))
      | Inr (Some n, None) \<Rightarrow>
          if \<not> is_end n then (t, Inr (False, Some ErrInvalidHash))
          else let (r, res) = GeoDel_loop (root t) hash in (t\<lparr>root := r\<rparr>, res))"

text \<open>
  \<open>GeoAdd\<close>, after the code is computed (source lines 132 to 153). \<open>add_at\<close> is the
  call \<open>target.GeoEntry.add\<close> through the pointer that \<open>get\<close> returned: the node at the
  end of the path of \<open>hash\<close> gets the point appended. \<open>GeoAdd_loop\<close> is the insertion
  walk; \<open>err\<close> is the error of the existence probe, which the source returns unchanged.
\<close>

fun add_at :: "geoTireNode \<Rightarrow> string \<Rightarrow> Points \<Rightarrow> string \<Rightarrow> geoTireNode" where
  "add_at move [] points geoHash =
     geoTireNode (children move) (passCnt move) (is_end move)
       (GeoEntry_add (GeoEntry move) points geoHash)"
| "add_at move (c # hash) points geoHash =
     (case children move ! nat (base32ToIndex c) of
        None \<Rightarrow> move
      | Some ch \<Rightarrow>
          geoTireNode ((children move)[nat (base32ToIndex c) := Some (add_at ch hash points geoHash)])
            (passCnt move) (is_end move) (GeoEntry move))"

fun GeoAdd_loop ::
  "geoTireNode \<Rightarrow> string \<Rightarrow> Points \<Rightarrow> string \<Rightarrow> error option
     \<Rightarrow> geoTireNode \<times> (bool \<times> error option) go" where
  "GeoAdd_loop move [] points geoHash err =
     (geoTireNode (children move) (passCnt move) True
        (GeoEntry_add (GeoEntry move) points geoHash), Inr (True, err))"
| "GeoAdd_loop move (c # hash) points geoHash err =
     (let index = base32ToIndex c in
      if index < 0 \<or> 32 \<le> index then (move, Inl IndexOutOfRange)
      else
        let ch = (case children move ! nat index of None \<Rightarrow> new_geoTireNode | Some ch \<Rightarrow> ch);
            (ch', res) =
              GeoAdd_loop (geoTireNode (children ch) (passCnt ch + 1) (is_end ch) (GeoEntry ch))
                hash points geoHash err
        in (geoTireNode ((children move)[nat index := Some ch']) (passCnt move)
              (is_end move) (GeoEntry move), res))"

definition GeoAdd_insert ::
  "TireTreeGeoService \<Rightarrow> Points \<Rightarrow> string \<Rightarrow> TireTreeGeoService \<times> (bool \<times> error option) go"
where
  "GeoAdd_insert t points geoHash =
     (case get t geoHash of
        Inl p \<Rightarrow> (t, Inl p)
      | Inr (target, err) \<Rightarrow>
          if (case target of None \<Rightarrow> False | Some n \<Rightarrow> is_end n)
          then (t\<lparr>root := add_at (root t) geoHash points geoHash\<rparr>, Inr (True, err))
          else let (r, res) = GeoAdd_loop (root t) geoHash points geoHash err
               in (t\<lparr>root := r\<rparr>, res))"

definition GeoAdd ::
  "TireTreeGeoService \<Rightarrow> Points \<Rightarrow> TireTreeGeoService \<times> (bool \<times> error option) go" where
  "GeoAdd t points =
     (case GeoHash points of
        Inl p \<Rightarrow> (t, Inl p)
      | Inr (geoHash, Some err) \<Rightarrow> (t, Inr (False, Some err))
      | Inr (geoHash, None) \<Rightarrow> GeoAdd_insert t points geoHash)"

section \<open>Paths\<close>

text \<open>
  The node at the end of the path that a string spells from \<open>move\<close>, if all of its
  slots are occupied; each symbol selects the slot that \<open>base32ToIndex\<close> gives it.
  This is the reference against which \<open>get\<close> is compared.
\<close>

fun path_node :: "geoTireNode \<Rightarrow> string \<Rightarrow> geoTireNode option" where
  "path_node move [] = Some move"
| "path_node move (c # hash) =
     (if 0 \<le> base32ToIndex c \<and> base32ToIndex c < 32
      then (case children move ! nat (base32ToIndex c) of
              None \<Rightarrow> None
            | Some ch \<Rightarrow> path_node ch hash)
      else None)"

text \<open>
  The strings on which the walk of \<open>get\<close> never indexes outside the 32 slots: every
  symbol decodes to less than 32. These are the digits, the letters \<open>B\<close> to \<open>G\<close>,
  and all bytes outside the alphabet (which decode to \<open>-1\<close>).
\<close>

definition panic_free :: "string \<Rightarrow> bool" where
  "panic_free hash = (\<forall>c\<in>set hash. base32ToIndex c < 32)"

text \<open>
  The strings on which the insertion walk of \<open>GeoAdd\<close> never indexes outside the 32
  slots: every symbol decodes to a slot index. These are the digits and \<open>B\<close> to \<open>G\<close>.
\<close>

definition slot_code :: "string \<Rightarrow> bool" where
  "slot_code hash = (\<forall>c\<in>set hash. 0 \<le> base32ToIndex c \<and> base32ToIndex c < 32)"

section \<open>Passage counts\<close>

text \<open>
  The number of stored codes whose path passes through a node: the terminal nodes of its
  subtree, the node itself included.
\<close>

fun terminals :: "geoTireNode \<Rightarrow> nat" where
  "terminals (geoTireNode cs n e g) =
     (if e then 1 else 0)
     + sum_list (map (\<lambda>c. case c of None \<Rightarrow> 0 | Some ch \<Rightarrow> terminals ch) cs)"

text \<open>
  The structural invariant below a node: it has 32 slots, and every node in one of its
  slots has a positive passage count, equal to the number of stored codes through it, and
  satisfies the invariant in turn. Applied to the root, it constrains every node but the
  root.
\<close>

fun inv_node :: "geoTireNode \<Rightarrow> bool" where
  "inv_node (geoTireNode cs n e g) =
     (length cs = 32 \<and>
      (\<forall>c\<in>set cs. case c of
                     None \<Rightarrow> True
                   | Some ch \<Rightarrow> 0 < passCnt ch \<and> passCnt ch = int (terminals ch) \<and> inv_node ch))"

text \<open>The stored codes that pass through the node of a slot.\<close>

definition slot_terminals :: "geoTireNode option \<Rightarrow> nat" where
  "slot_terminals c = (case c of None \<Rightarrow> 0 | Some ch \<Rightarrow> terminals ch)"

text \<open>What the invariant asks of one slot.\<close>

definition slot_ok :: "geoTireNode option \<Rightarrow> bool" where
  "slot_ok c = (case c of
                  None \<Rightarrow> True
                | Some ch \<Rightarrow> 0 < passCnt ch \<and> passCnt ch = int (terminals ch) \<and> inv_node ch)"

text \<open>The path of a string from \<open>move\<close> exists and ends at a terminal node.\<close>

definition terminal_at :: "geoTireNode \<Rightarrow> string \<Rightarrow> bool" where
  "terminal_at move hash = (case path_node move hash of None \<Rightarrow> False | Some n \<Rightarrow> is_end n)"

text \<open>
  Every node has its 32 slots. A Go array always has, so this holds of every value of the
  source's node type; it is stated because the slots are modelled as a list.
\<close>

fun slots32 :: "geoTireNode \<Rightarrow> bool" where
  "slots32 (geoTireNode cs n e g) =
     (length cs = 32 \<and> (\<forall>c\<in>set cs. case c of None \<Rightarrow> True | Some ch \<Rightarrow> slots32 ch))"

text \<open>
  Every path of \<open>k\<close> occupied slots from the node ends at a terminal node: the state
  of an index into which only codes of \<open>k\<close> symbols were inserted.
\<close>

fun ends_at :: "nat \<Rightarrow> geoTireNode \<Rightarrow> bool" where
  "ends_at 0 n = is_end n"
| "ends_at (Suc k) n =
     (\<forall>c\<in>set (children n). case c of None \<Rightarrow> True | Some ch \<Rightarrow> ends_at k ch)"

text \<open>The node with all entries erased: the slots, the counts and the terminal flags.\<close>

fun counts :: "geoTireNode \<Rightarrow> geoTireNode" where
  "counts (geoTireNode cs n e g) =
     geoTireNode (map (map_option counts) cs) n e \<lparr>Points = None, Hash = []\<rparr>"

text \<open>
  An index for concrete runs: the code \<open>0\<close> stored with the point \<open>(1, 1)\<close> and the code
  \<open>00\<close> stored with the point \<open>(2, 2)\<close>.
\<close>

definition two_codes :: TireTreeGeoService where
  "two_codes =
     \<lparr>root = geoTireNode
        (Some (geoTireNode
           (Some (geoTireNode (replicate 32 None) 1 True
                    \<lparr>Points = Some [''00'' \<mapsto> [\<lparr>Longitude = 2, Latitude = 2\<rparr>]], Hash = []\<rparr>)
            # replicate 31 None) 2 True
           \<lparr>Points = Some [''0'' \<mapsto> [\<lparr>Longitude = 1, Latitude = 1\<rparr>]], Hash = []\<rparr>)
         # replicate 31 None) 0 False \<lparr>Points = None, Hash = []\<rparr>\<rparr>"


section \<open>The codec: symbol table and code computation\<close>

lemma GeoHash_loop_first_step:
  "GeoHash_loop lngBits latBits 0 geoHash fiveBitsTmp = Inl IndexOutOfRange"
  by (subst GeoHash_loop.simps) (simp add: index_at_def)

lemma GeoHash_panics: "GeoHash points = Inl IndexOutOfRange"
  by (simp add: GeoHash_def Let_def GeoHash_loop_first_step)

text \<open>Every byte outside the table decodes to the sentinel \<open>-1\<close>.\<close>

lemma base32ToIndex_outside:
  assumes "c \<notin> set Base32"
  shows "base32ToIndex c = - 1"
proof (rule ccontr)
  assume neq: "base32ToIndex c \<noteq> - 1"
  define n where "n = (of_char c :: nat)"
  have b: "(of_char c :: int) = int n" by (simp add: n_def of_nat_of_char)
  have c: "c = char_of n" by (simp add: n_def)
  from neq have "48 \<le> n \<and> n \<le> 57 \<or> 66 \<le> n \<and> n \<le> 72 \<or> 74 \<le> n \<and> n \<le> 75
      \<or> 77 \<le> n \<and> n \<le> 78 \<or> 80 \<le> n \<and> n \<le> 90"
    unfolding base32ToIndex_def Let_def b by (simp split: if_splits)
  then have "n \<in> {48, 49, 50, 51, 52, 53, 54, 55, 56, 57, 66, 67, 68, 69, 70, 71, 72, 74, 75,
      77, 78, 80, 81, 82, 83, 84, 85, 86, 87, 88, 89, 90}"
    by simp arith
  then have "c \<in> set Base32"
    unfolding c Base32_def by (elim insertE emptyE) (simp_all add: char_of_def bit_0)
  with assms show False by simp
qed

text \<open>The bit generation started on an empty builder returns 20 characters.\<close>

lemma getBinaryBits_length:
  "length bits < 20 \<Longrightarrow> length (getBinaryBits bits val start end') = 20"
proof (induction bits val start end' rule: getBinaryBits.induct)
  case (1 bits val start end')
  show ?case
  proof (cases "length bits = 19")
    case True
    then show ?thesis by (subst getBinaryBits.simps) simp
  next
    case False
    with "1.prems" have l: "\<not> 20 \<le> length (bits @ ''0'')" "length (bits @ ''0'') < 20"
      "\<not> 20 \<le> length (bits @ ''1'')" "length (bits @ ''1'') < 20"
      by simp_all
    show ?thesis
    proof (cases "val < (start + end') / 2")
      case True
      from "1.IH"(1) [OF True l(1) l(2)] True l show ?thesis
        by (subst getBinaryBits.simps) simp
    next
      case False
      from "1.IH"(2) [OF False l(3) l(4)] False l show ?thesis
        by (subst getBinaryBits.simps) simp
    qed
  qed
qed

text \<open>
  C1. The claim: \<open>base32ToIndex (Base32[i]) = i\<close> for every \<open>i\<close> in \<open>[0, 31]\<close>. The
  source's offsets give something else from position 10 on: the symbols of the table,
  taken in table order, decode to the list below; already \<open>'B'\<close> at position 10 decodes
  to 26, and from \<open>'H'\<close> on the result is no index of a 32-slot array.
\<close>

theorem base32ToIndex_table:
  "map base32ToIndex Base32 =
     [0, 1, 2, 3, 4, 5, 6, 7, 8, 9, 26, 27, 28, 29, 30, 31, 32, 33, 34, 38, 39,
      43, 44, 45, 46, 47, 48, 49, 50, 51, 52, 53]
   \<and> Base32 ! 10 = CHR ''B'' \<and> base32ToIndex (Base32 ! 10) = 26"
  by (simp add: base32ToIndex_def Base32_def byte_def)

text \<open>
  C2. The claim: for an in-range point \<open>GeoHash\<close> returns the 8-symbol code of the
  interleaved bits. The source panics in the first iteration of its loop, for every
  point: at \<open>i = 0\<close> the branch \<open>i % 2 == 0\<close> reads \<open>latBits[(0 - 1) >> 1]\<close>, index
  \<open>-1\<close>.
\<close>

theorem GeoHash_always_panics: "GeoHash points = Inl IndexOutOfRange"
  by (simp add: GeoHash_def Let_def GeoHash_loop_first_step)

text \<open>
  C9. The claim: the point with longitude \<open>-122.4194\<close> and latitude \<open>37.7749\<close> encodes to
  \<open>"9q8yyk8y"\<close>. The source panics there as everywhere, and none of the letters
  \<open>q\<close>, \<open>y\<close>, \<open>k\<close> occurs in its table, which holds upper-case letters only.
\<close>

theorem GeoHash_known_value:
  "GeoHash \<lparr>Longitude = - 122.4194, Latitude = 37.7749\<rparr> = Inl IndexOutOfRange
   \<and> CHR ''q'' \<notin> set Base32 \<and> CHR ''y'' \<notin> set Base32 \<and> CHR ''k'' \<notin> set Base32"
  by (simp add: GeoHash_panics Base32_def)

section \<open>Coordinates outside the intervals\<close>

lemma getBinaryBits_high:
  "length bits < 20 \<Longrightarrow> end' \<le> val \<Longrightarrow> start \<le> end' \<Longrightarrow>
   getBinaryBits bits val start end' = bits @ replicate (20 - length bits) CHR ''1''"
proof (induction bits val start end' rule: getBinaryBits.induct)
  case (1 bits val start end')
  have mid: "\<not> val < (start + end') / 2" and mid': "(start + end') / 2 \<le> end'"
    using "1.prems" by simp_all
  show ?case
  proof (cases "20 \<le> length (bits @ ''1'')")
    case True
    with "1.prems" have "length bits = 19" by simp
    then show ?thesis using mid by (subst getBinaryBits.simps) simp
  next
    case False
    then have l: "length (bits @ ''1'') < 20" by simp
    have "getBinaryBits (bits @ ''1'') val ((start + end') / 2) end'
          = (bits @ ''1'') @ replicate (20 - length (bits @ ''1'')) CHR ''1''"
      using "1.IH"(2) [OF mid False l "1.prems"(2) mid'] .
    moreover have "20 - length bits = Suc (20 - length (bits @ ''1''))"
      using l by simp
    ultimately show ?thesis using mid False
      by (subst getBinaryBits.simps) simp
  qed
qed

lemma getBinaryBits_low:
  "length bits < 20 \<Longrightarrow> val < start \<Longrightarrow> start \<le> end' \<Longrightarrow>
   getBinaryBits bits val start end' = bits @ replicate (20 - length bits) CHR ''0''"
proof (induction bits val start end' rule: getBinaryBits.induct)
  case (1 bits val start end')
  have mid: "val < (start + end') / 2" and mid': "start \<le> (start + end') / 2"
    using "1.prems" by simp_all
  show ?case
  proof (cases "20 \<le> length (bits @ ''0'')")
    case True
    with "1.prems" have "length bits = 19" by simp
    then show ?thesis using mid by (subst getBinaryBits.simps) simp
  next
    case False
    then have l: "length (bits @ ''0'') < 20" by simp
    have "getBinaryBits (bits @ ''0'') val start ((start + end') / 2)
          = (bits @ ''0'') @ replicate (20 - length (bits @ ''0'')) CHR ''0''"
      using "1.IH"(1) [OF mid False l "1.prems"(2) mid'] .
    moreover have "20 - length bits = Suc (20 - length (bits @ ''0''))"
      using l by simp
    ultimately show ?thesis using mid False
      by (subst getBinaryBits.simps) simp
  qed
qed

lemma getBinaryBits_at_lower_bound:
  "length bits < 20 \<Longrightarrow> val \<le> start \<Longrightarrow> start < end' \<Longrightarrow>
   getBinaryBits bits val start end' = bits @ replicate (20 - length bits) CHR ''0''"
proof (induction bits val start end' rule: getBinaryBits.induct)
  case (1 bits val start end')
  have mid: "val < (start + end') / 2" and mid': "start < (start + end') / 2"
    using "1.prems" by simp_all
  show ?case
  proof (cases "20 \<le> length (bits @ ''0'')")
    case True
    with "1.prems" have "length bits = 19" by simp
    then show ?thesis using mid by (subst getBinaryBits.simps) simp
  next
    case False
    then have l: "length (bits @ ''0'') < 20" by simp
    have "getBinaryBits (bits @ ''0'') val start ((start + end') / 2)
          = (bits @ ''0'') @ replicate (20 - length (bits @ ''0'')) CHR ''0''"
      using "1.IH"(1) [OF mid False l "1.prems"(2) mid'] .
    moreover have "20 - length bits = Suc (20 - length (bits @ ''0''))"
      using l by simp
    ultimately show ?thesis using mid False
      by (subst getBinaryBits.simps) simp
  qed
qed

text \<open>
  The result of \<open>GeoHash\<close> depends on the point through the two bit strings only.
\<close>

lemma GeoHash_bits:
  "getBinaryBits [] (Longitude p) (- 180) 180 = getBinaryBits [] (Longitude q) (- 180) 180 \<Longrightarrow>
   getBinaryBits [] (Latitude p) (- 90) 90 = getBinaryBits [] (Latitude q) (- 90) 90 \<Longrightarrow>
   GeoHash p = GeoHash q"
  by (simp add: GeoHash_def)

text \<open>
  C7. The claim: \<open>GeoHash\<close> fails with an out-of-range error when a coordinate lies
  outside its interval. The source has no range check and no such error value. As amended:
  \<open>GeoHash\<close> treats a coordinate outside its interval as the nearest bound of the
  interval: the bit generation accepts it, gives twenty \<open>1\<close> from the upper bound on and
  twenty \<open>0\<close> below the lower bound, and the outcome of \<open>GeoHash\<close> is that of the
  point with the coordinate replaced by the bound.
\<close>

theorem GeoHash_no_range_check:
  "(180 \<le> Longitude p \<longrightarrow>
      getBinaryBits [] (Longitude p) (- 180) 180 = replicate 20 CHR ''1''
      \<and> GeoHash p = GeoHash (p\<lparr>Longitude := 180\<rparr>))
   \<and> (Longitude p < - 180 \<longrightarrow>
      getBinaryBits [] (Longitude p) (- 180) 180 = replicate 20 CHR ''0''
      \<and> GeoHash p = GeoHash (p\<lparr>Longitude := - 180\<rparr>))
   \<and> (90 \<le> Latitude p \<longrightarrow>
      getBinaryBits [] (Latitude p) (- 90) 90 = replicate 20 CHR ''1''
      \<and> GeoHash p = GeoHash (p\<lparr>Latitude := 90\<rparr>))
   \<and> (Latitude p < - 90 \<longrightarrow>
      getBinaryBits [] (Latitude p) (- 90) 90 = replicate 20 CHR ''0''
      \<and> GeoHash p = GeoHash (p\<lparr>Latitude := - 90\<rparr>))"
proof -
  have hi: "getBinaryBits [] v (- b) b = replicate 20 CHR ''1''" if "b \<le> v" "0 < b" for v b :: real
    using getBinaryBits_high [of "[]" b v "- b"] that by simp
  have lo: "getBinaryBits [] v (- b) b = replicate 20 CHR ''0''" if "v \<le> - b" "0 < b" for v b :: real
    using getBinaryBits_at_lower_bound [of "[]" v "- b" b] that by simp
  have 1: "GeoHash p = GeoHash (p\<lparr>Longitude := 180\<rparr>)" if "180 \<le> Longitude p"
    by (rule GeoHash_bits) (simp_all add: hi that)
  have 2: "GeoHash p = GeoHash (p\<lparr>Longitude := - 180\<rparr>)" if "Longitude p < - 180"
    by (rule GeoHash_bits) (use that in \<open>simp_all add: lo\<close>)
  have 3: "GeoHash p = GeoHash (p\<lparr>Latitude := 90\<rparr>)" if "90 \<le> Latitude p"
    by (rule GeoHash_bits) (simp_all add: hi that)
  have 4: "GeoHash p = GeoHash (p\<lparr>Latitude := - 90\<rparr>)" if "Latitude p < - 90"
    by (rule GeoHash_bits) (use that in \<open>simp_all add: lo\<close>)
  show ?thesis using 1 2 3 4 hi [of 180 "Longitude p"] lo [of "Longitude p" 180]
      hi [of 90 "Latitude p"] lo [of "Latitude p" 90]
    by simp
qed

theorem GeoHash_no_range_check_witness:
  "(180::real) \<le> 200 \<and> (- 200::real) < - 180 \<and> (90::real) \<le> 95 \<and> (- 95::real) < - 90
   \<and> getBinaryBits [] 200 (- 180) 180 = replicate 20 CHR ''1''
   \<and> getBinaryBits [] (- 200) (- 180) 180 = replicate 20 CHR ''0''
   \<and> getBinaryBits [] 95 (- 90) 90 = replicate 20 CHR ''1''
   \<and> getBinaryBits [] (- 95) (- 90) 90 = replicate 20 CHR ''0''
   \<and> GeoHash \<lparr>Longitude = 200, Latitude = 95\<rparr> = GeoHash \<lparr>Longitude = 180, Latitude = 95\<rparr>
   \<and> GeoHash \<lparr>Longitude = 200, Latitude = 95\<rparr> = GeoHash \<lparr>Longitude = 200, Latitude = 90\<rparr>
   \<and> GeoHash \<lparr>Longitude = - 200, Latitude = - 95\<rparr> = GeoHash \<lparr>Longitude = - 180, Latitude = - 95\<rparr>
   \<and> GeoHash \<lparr>Longitude = - 200, Latitude = - 95\<rparr> = GeoHash \<lparr>Longitude = - 200, Latitude = - 90\<rparr>"
proof -
  have n: "(180::real) \<le> 200 \<and> (- 200::real) < - 180 \<and> (90::real) \<le> 95 \<and> (- 95::real) < - 90"
    by simp
  note a = GeoHash_no_range_check [of "\<lparr>Longitude = 200, Latitude = 95\<rparr>", simplified]
  note b = GeoHash_no_range_check [of "\<lparr>Longitude = - 200, Latitude = - 95\<rparr>", simplified]
  from n a b show ?thesis by blast
qed

text \<open>
  C7, the claim as stated, at longitude 200: the outcome is the panic of every other
  input, and the longitude bits are computed without complaint.
\<close>

theorem GeoHash_out_of_range_counterexample:
  "GeoHash \<lparr>Longitude = 200, Latitude = 0\<rparr> = Inl IndexOutOfRange
   \<and> GeoHash \<lparr>Longitude = 200, Latitude = 0\<rparr> = GeoHash \<lparr>Longitude = 0, Latitude = 0\<rparr>
   \<and> getBinaryBits [] 200 (- 180) 180 = ''11111111111111111111''"
  by (simp add: GeoHash_panics getBinaryBits.simps)

section \<open>Lookups: paths, errors and panics\<close>

lemma base32ToIndex_ge: "- 1 \<le> base32ToIndex c"
  by (simp add: base32ToIndex_def byte_def Let_def)

lemma get_loop_path_node:
  "\<forall>c\<in>set hash. base32ToIndex c < 32 \<Longrightarrow>
   get_loop move hash =
     (case path_node move hash of
        None \<Rightarrow> Inr (None, Some ErrInvalidHash)
      | Some n \<Rightarrow> Inr (Some n, None))"
proof (induction hash arbitrary: move)
  case Nil
  then show ?case by simp
next
  case (Cons c hash)
  have "- 1 \<le> base32ToIndex c" by (rule base32ToIndex_ge)
  with Cons show ?case
    by (auto simp: Let_def split: option.splits)
qed

lemma dfs_no_error:
  "snd (dfs n) = None" "snd (dfs_children cs entries) = None"
  by (induction n and cs entries rule: dfs_dfs_children.induct)
     (auto split: prod.splits option.splits)

lemma get_loop_children:
  "children m = children m' \<Longrightarrow> hash \<noteq> [] \<Longrightarrow> get_loop m hash = get_loop m' hash"
  by (cases hash) (simp_all add: Let_def)

lemma get_loop_found_children:
  assumes "children m = children m'" and "get_loop m hash = Inr (Some n, None)"
  shows "\<exists>n'. get_loop m' hash = Inr (Some n', None)"
proof (cases hash)
  case Nil
  then show ?thesis by simp
next
  case (Cons c cs)
  then have "hash \<noteq> []" by simp
  then have "get_loop m hash = get_loop m' hash"
    by (rule get_loop_children [OF assms(1)])
  with assms(2) show ?thesis by simp
qed

lemma GeoDel_loop_returns:
  "get_loop move hash = Inr (Some n, None) \<Longrightarrow> snd (GeoDel_loop move hash) = Inr (True, None)"
proof (induction hash arbitrary: move n)
  case Nil
  then show ?case by simp
next
  case (Cons c hash)
  from Cons.prems obtain ch where
    idx: "\<not> (base32ToIndex c < 0 \<or> 32 \<le> base32ToIndex c)" and
    ch: "children move ! nat (base32ToIndex c) = Some ch" and
    g: "get_loop ch hash = Inr (Some n, None)"
    by (auto simp: Let_def split: if_splits option.splits)
  obtain n' where
    "get_loop (geoTireNode (children ch) (passCnt ch - 1) (is_end ch) (GeoEntry ch)) hash
       = Inr (Some n', None)"
    using get_loop_found_children [OF _ g, of "geoTireNode (children ch) (passCnt ch - 1) (is_end ch) (GeoEntry ch)"]
    by auto
  from Cons.IH [OF this] show ?case
    using idx ch by (auto simp: Let_def split: prod.splits)
qed

text \<open>
  C3. The claim: every public operation returns a value and a typed error on every input
  and never panics. As amended: on every string whose symbols all decode to less than 32
  (bytes outside the alphabet included), \<open>GeoPosition\<close>, \<open>GeoDel\<close> and
  \<open>FindByPrefix\<close> return a pair whose error is nil or \<open>ErrInvalidHash\<close>;
  \<open>GeoDistance\<close> is the unimplemented stub and panics on every input.
\<close>

theorem operations_return:
  assumes "panic_free hash"
  shows "(\<exists>ps e. GeoPosition t hash = Inr (ps, e) \<and> (e = None \<or> e = Some ErrInvalidHash))
       \<and> (\<exists>t' b e. GeoDel t hash = (t', Inr (b, e)) \<and> (e = None \<or> e = Some ErrInvalidHash))
       \<and> (\<exists>es e. FindByPrefix t hash = Inr (es, e) \<and> (e = None \<or> e = Some ErrInvalidHash))
       \<and> GeoDistance p q = Inl ImplementMe"
proof -
  have g: "get t hash =
     (case path_node (root t) hash of
        None \<Rightarrow> Inr (None, Some ErrInvalidHash)
      | Some n \<Rightarrow> Inr (Some n, None))"
    using assms get_loop_path_node [of hash "root t"] by (simp add: get_def panic_free_def)
  have 1: "\<exists>ps e. GeoPosition t hash = Inr (ps, e) \<and> (e = None \<or> e = Some ErrInvalidHash)"
    by (simp add: GeoPosition_def g split: option.splits)
  have 2: "\<exists>t' b e. GeoDel t hash = (t', Inr (b, e)) \<and> (e = None \<or> e = Some ErrInvalidHash)"
  proof (cases "path_node (root t) hash")
    case None
    then show ?thesis by (auto simp: GeoDel_def g)
  next
    case (Some n)
    then have "get_loop (root t) hash = Inr (Some n, None)"
      using g by (simp add: get_def)
    from GeoDel_loop_returns [OF this] show ?thesis
      using Some by (auto simp: GeoDel_def g split: prod.splits)
  qed
  have 3: "\<exists>es e. FindByPrefix t hash = Inr (es, e) \<and> (e = None \<or> e = Some ErrInvalidHash)"
  proof (cases "path_node (root t) hash")
    case None
    then show ?thesis by (simp add: FindByPrefix_def g)
  next
    case (Some n)
    have "dfs n = (fst (dfs n), None)"
      using dfs_no_error(1) [of n] by (cases "dfs n") simp
    then have "\<exists>es e. dfs n = (es, e) \<and> (e = None \<or> e = Some ErrInvalidHash)"
      by blast
    then show ?thesis using Some by (simp add: FindByPrefix_def g)
  qed
  show ?thesis using 1 2 3 by (simp add: GeoDistance_def)
qed

lemma panic_free_digit: "panic_free ''0''"
  by (simp add: panic_free_def base32ToIndex_def byte_def)

theorem operations_return_witness:
  "panic_free ''0''
   \<and> GeoPosition NewTireTreeGeoService ''0'' = Inr ([], Some ErrInvalidHash)
   \<and> GeoDel NewTireTreeGeoService ''0'' = (NewTireTreeGeoService, Inr (False, Some ErrInvalidHash))
   \<and> FindByPrefix NewTireTreeGeoService ''0'' = Inr ([], Some ErrInvalidHash)"
proof -
  have pf: "panic_free ''0''" by (rule panic_free_digit)
  have i: "base32ToIndex CHR ''0'' = 0"
    by (simp add: base32ToIndex_def byte_def)
  have g: "get NewTireTreeGeoService ''0'' = Inr (None, Some ErrInvalidHash)"
    by (simp add: get_def NewTireTreeGeoService_def new_geoTireNode_def i)
  note operations_return [OF pf, of NewTireTreeGeoService]
  then show ?thesis using pf g
    by (simp add: GeoPosition_def GeoDel_def FindByPrefix_def)
qed

text \<open>
  C3, the claim as stated: \<open>GeoDistance\<close> panics, a lookup of the alphabet symbol
  \<open>Z\<close> in a new index panics (slot 53 of 32), and so does \<open>GeoHash\<close>.
\<close>

theorem operations_panic_counterexample:
  "GeoDistance \<lparr>Longitude = 0, Latitude = 0\<rparr> \<lparr>Longitude = 1, Latitude = 1\<rparr> = Inl ImplementMe
   \<and> GeoPosition NewTireTreeGeoService ''Z'' = Inl IndexOutOfRange
   \<and> GeoHash \<lparr>Longitude = 0, Latitude = 0\<rparr> = Inl IndexOutOfRange"
  by (simp add: GeoDistance_def GeoPosition_def get_def base32ToIndex_def byte_def GeoHash_panics)

text \<open>
  C8. The claim: \<open>FindByPrefix\<close> fails with \<open>ErrInvalidHash\<close> only on a symbol outside
  the alphabet, and returns an empty result without error when the path is missing. As
  amended: the empty prefix resolves to the root, whose traversal is returned without error;
  and for a prefix whose symbols all decode to less than 32, the result is the traversal
  of the node that the prefix reaches, without error, when the path exists, and the empty
  result with \<open>ErrInvalidHash\<close> when it does not (a symbol outside the alphabet, or an
  empty slot on the way).
\<close>

theorem FindByPrefix_result:
  "FindByPrefix t [] = Inr (fst (dfs (root t)), None)
   \<and> (panic_free prefix \<longrightarrow>
        FindByPrefix t prefix =
          (case path_node (root t) prefix of
             None \<Rightarrow> Inr ([], Some ErrInvalidHash)
           | Some n \<Rightarrow> Inr (fst (dfs n), None)))"
proof -
  have d: "dfs n = (fst (dfs n), None)" for n
    using dfs_no_error(1) [of n] by (cases "dfs n") simp
  have "FindByPrefix t [] = Inr (fst (dfs (root t)), None)"
    using d [of "root t"] by (simp add: FindByPrefix_def get_def)
  moreover have "FindByPrefix t prefix =
          (case path_node (root t) prefix of
             None \<Rightarrow> Inr ([], Some ErrInvalidHash)
           | Some n \<Rightarrow> Inr (fst (dfs n), None))" if "panic_free prefix"
    using that get_loop_path_node [of prefix "root t"] d
    by (simp add: FindByPrefix_def get_def panic_free_def split: option.splits)
  ultimately show ?thesis by simp
qed

theorem FindByPrefix_result_witness:
  "panic_free ''0'' \<and> path_node (root NewTireTreeGeoService) ''0'' = None
   \<and> FindByPrefix NewTireTreeGeoService ''0'' = Inr ([], Some ErrInvalidHash)"
proof -
  have pf: "panic_free ''0''" by (rule panic_free_digit)
  have i: "base32ToIndex CHR ''0'' = 0"
    by (simp add: base32ToIndex_def byte_def)
  have p: "path_node (root NewTireTreeGeoService) ''0'' = None"
    by (simp add: NewTireTreeGeoService_def new_geoTireNode_def i)
  from FindByPrefix_result [of NewTireTreeGeoService "''0''"] pf p show ?thesis by simp
qed

text \<open>
  C8, the claim as stated: the prefix \<open>0\<close> is a valid symbol whose path does not exist
  in a new index, and the result carries \<open>ErrInvalidHash\<close>.
\<close>

theorem FindByPrefix_missing_path_counterexample:
  "base32ToIndex CHR ''0'' = 0 \<and> CHR ''0'' \<in> set Base32
   \<and> FindByPrefix NewTireTreeGeoService ''0'' = Inr ([], Some ErrInvalidHash)"
  by (simp add: FindByPrefix_def get_def NewTireTreeGeoService_def new_geoTireNode_def
        base32ToIndex_def byte_def Base32_def)

section \<open>Insertion and deletion\<close>

lemma base32ToIndex_zero: "base32ToIndex CHR ''0'' = 0"
  by (simp add: base32ToIndex_def byte_def)



text \<open>
  \<open>GeoAdd\<close> itself calls \<open>GeoHash\<close> first and so panics on every point, before it
  touches the trie.
\<close>

lemma GeoAdd_panics: "GeoAdd t points = (t, Inl IndexOutOfRange)"
  by (simp add: GeoAdd_def GeoHash_panics)

lemma GeoDel_two_codes:
  "GeoDel two_codes ''0'' =
   (\<lparr>root = geoTireNode
        (Some (geoTireNode
           (Some (geoTireNode (replicate 32 None) 1 True
                    \<lparr>Points = Some [''00'' \<mapsto> [\<lparr>Longitude = 2, Latitude = 2\<rparr>]], Hash = []\<rparr>)
            # replicate 31 None) 1 False
           \<lparr>Points = Some [''0'' \<mapsto> [\<lparr>Longitude = 1, Latitude = 1\<rparr>]], Hash = []\<rparr>)
         # replicate 31 None) 0 False \<lparr>Points = None, Hash = []\<rparr>\<rparr>, Inr (True, None))"
  by (simp add: GeoDel_def get_def two_codes_def base32ToIndex_zero)

text \<open>
  C5. The claim: \<open>GeoDel\<close> fails with \<open>ErrInvalidHash\<close> when the path does not exist, and
  where it walks the whole path it clears the terminal flag and the entry, so that a
  re-insertion of the code sees no leftover point. In the source, deleting the alphabet
  symbol \<open>Z\<close> from a new index panics (slot 53 of 32); and deleting the code \<open>0\<close> from
  the index \<open>two_codes\<close> clears the flag but keeps the entry, so that the point \<open>(1, 1)\<close>
  is back once another point is inserted under \<open>0\<close>.
\<close>

theorem GeoDel_divergence:
  "GeoDel NewTireTreeGeoService ''Z'' = (NewTireTreeGeoService, Inl IndexOutOfRange)
   \<and> snd (GeoDel two_codes ''0'') = Inr (True, None)
   \<and> map_option (\<lambda>n. (is_end n, GeoEntry_get (GeoEntry n) ''0''))
        (path_node (root (fst (GeoDel two_codes ''0''))) ''0'')
       = Some (False, [\<lparr>Longitude = 1, Latitude = 1\<rparr>])
   \<and> GeoPosition
        (fst (GeoAdd_insert (fst (GeoDel two_codes ''0'')) \<lparr>Longitude = 3, Latitude = 3\<rparr> ''0''))
        ''0''
       = Inr ([\<lparr>Longitude = 1, Latitude = 1\<rparr>, \<lparr>Longitude = 3, Latitude = 3\<rparr>], None)"
proof -
  have "GeoDel NewTireTreeGeoService ''Z'' = (NewTireTreeGeoService, Inl IndexOutOfRange)"
    by (simp add: GeoDel_def get_def base32ToIndex_def byte_def)
  moreover have "GeoPosition
        (fst (GeoAdd_insert (fst (GeoDel two_codes ''0'')) \<lparr>Longitude = 3, Latitude = 3\<rparr> ''0''))
        ''0''
       = Inr ([\<lparr>Longitude = 1, Latitude = 1\<rparr>, \<lparr>Longitude = 3, Latitude = 3\<rparr>], None)"
    by (simp add: GeoDel_two_codes GeoAdd_insert_def get_def base32ToIndex_zero GeoPosition_def
          GeoEntry_add_def GeoEntry_get_def)
  ultimately show ?thesis
    by (simp add: GeoDel_two_codes base32ToIndex_zero GeoEntry_get_def)
qed

section \<open>The passage count invariant\<close>

lemma terminals_sel:
  "terminals n = (if is_end n then 1 else 0) + sum_list (map slot_terminals (children n))"
proof -
  have "slot_terminals = (\<lambda>c. case c of None \<Rightarrow> 0 | Some ch \<Rightarrow> terminals ch)"
    by (rule ext) (simp add: slot_terminals_def)
  then show ?thesis by (cases n) simp
qed

lemma inv_node_sel:
  "inv_node n = (length (children n) = 32 \<and> (\<forall>c\<in>set (children n). slot_ok c))"
  by (cases n) (simp add: slot_ok_def)

lemma sum_list_map_update:
  "i < length xs \<Longrightarrow>
   sum_list (map f (xs[i := v])) + f (xs ! i) = sum_list (map f xs) + (f v :: nat)"
proof (induction xs arbitrary: i)
  case Nil
  then show ?case by simp
next
  case (Cons x xs)
  show ?case
  proof (cases i)
    case 0
    then show ?thesis by simp
  next
    case (Suc j)
    with Cons.prems have "j < length xs" by simp
    from Cons.IH [OF this] show ?thesis using Suc by simp
  qed
qed

lemma slots_update:
  "\<forall>c\<in>set cs. slot_ok c \<Longrightarrow> slot_ok v \<Longrightarrow> \<forall>c\<in>set (cs[i := v]). slot_ok c"
  using set_update_subset_insert [of cs i v] by auto

lemma get_loop_found_same_end:
  assumes "children m = children m'" and "is_end m = is_end m'"
    and "get_loop m hash = Inr (Some n, None)"
  shows "\<exists>n'. get_loop m' hash = Inr (Some n', None) \<and> is_end n' = is_end n"
proof (cases hash)
  case Nil
  then show ?thesis using assms by auto
next
  case (Cons c cs)
  then have "hash \<noteq> []" by simp
  then have "get_loop m hash = get_loop m' hash"
    by (rule get_loop_children [OF assms(1)])
  with assms(3) show ?thesis by simp
qed

lemma GeoDel_loop_inv:
  assumes "inv_node move" and "get_loop move hash = Inr (Some n, None)" and "is_end n"
  shows "inv_node (fst (GeoDel_loop move hash))
       \<and> terminals (fst (GeoDel_loop move hash)) + 1 = terminals move
       \<and> passCnt (fst (GeoDel_loop move hash)) = passCnt move"
  using assms
proof (induction hash arbitrary: move n)
  case Nil
  then have "n = move" by simp
  with Nil show ?case by (simp add: inv_node_sel terminals_sel)
next
  case (Cons c hash)
  define i where "i = nat (base32ToIndex c)"
  from Cons.prems(2) obtain ch where
    idx: "\<not> (base32ToIndex c < 0 \<or> 32 \<le> base32ToIndex c)" and
    ch: "children move ! i = Some ch" and
    g: "get_loop ch hash = Inr (Some n, None)"
    by (auto simp: Let_def i_def split: if_splits option.splits)
  have len: "length (children move) = 32" and slots: "\<forall>c\<in>set (children move). slot_ok c"
    using Cons.prems(1) by (simp_all add: inv_node_sel)
  have i: "i < length (children move)" using idx len unfolding i_def by linarith
  then have "Some ch \<in> set (children move)" using ch nth_mem [OF i] by simp
  with slots have ok: "0 < passCnt ch" "passCnt ch = int (terminals ch)" "inv_node ch"
    by (auto simp: slot_ok_def)
  have sum: "sum_list (map slot_terminals ((children move)[i := v])) + terminals ch
             = sum_list (map slot_terminals (children move)) + slot_terminals v" for v
    using sum_list_map_update [OF i, of slot_terminals v] ch by (simp add: slot_terminals_def)
  show ?case
  proof (cases "passCnt ch - 1 = 0")
    case True
    then have step: "fst (GeoDel_loop move (c # hash)) =
        geoTireNode ((children move)[i := None]) (passCnt move) (is_end move) (GeoEntry move)"
      using idx ch by (simp add: Let_def i_def)
    have t1: "terminals ch = 1" using True ok(2) by simp
    have "inv_node (fst (GeoDel_loop move (c # hash)))"
      unfolding step using len slots_update [OF slots, of None i]
      by (simp add: inv_node_sel slot_ok_def)
    moreover have "terminals (fst (GeoDel_loop move (c # hash))) + 1 = terminals move"
      unfolding step using sum [of None] t1 by (simp add: terminals_sel slot_terminals_def)
    ultimately show ?thesis unfolding step by simp
  next
    case False
    define ch1 where "ch1 = geoTireNode (children ch) (passCnt ch - 1) (is_end ch) (GeoEntry ch)"
    define ch' where "ch' = fst (GeoDel_loop ch1 hash)"
    have step: "fst (GeoDel_loop move (c # hash)) =
        geoTireNode ((children move)[i := Some ch']) (passCnt move) (is_end move) (GeoEntry move)"
      using idx ch False by (simp add: Let_def i_def case_prod_beta ch1_def ch'_def)
    have inv1: "inv_node ch1" using ok(3) by (simp add: inv_node_sel ch1_def)
    have same: "children ch = children ch1" "is_end ch = is_end ch1"
      by (simp_all add: ch1_def)
    from get_loop_found_same_end [OF same g] Cons.prems(3)
    obtain n' where g1: "get_loop ch1 hash = Inr (Some n', None)" and e1: "is_end n'"
      by auto
    have t1: "terminals ch1 = terminals ch" by (simp add: terminals_sel ch1_def)
    from Cons.IH [OF inv1 g1 e1]
    have IH: "inv_node ch'" "terminals ch' + 1 = terminals ch" "passCnt ch' = passCnt ch - 1"
      by (simp_all add: ch'_def t1) (simp add: ch1_def)
    have "slot_ok (Some ch')"
      using IH ok False by (auto simp: slot_ok_def)
    then have "inv_node (fst (GeoDel_loop move (c # hash)))"
      unfolding step using len slots_update [OF slots, of "Some ch'" i]
      by (simp add: inv_node_sel)
    moreover have "terminals (fst (GeoDel_loop move (c # hash))) + 1 = terminals move"
      unfolding step using sum [of "Some ch'"] IH(2)
      by (simp add: terminals_sel slot_terminals_def)
    ultimately show ?thesis unfolding step by simp
  qed
qed

lemma terminal_at_cong:
  "children m = children m' \<Longrightarrow> is_end m = is_end m' \<Longrightarrow> terminal_at m hash = terminal_at m' hash"
  by (cases hash) (simp_all add: terminal_at_def)

lemma new_geoTireNode_facts:
  "inv_node new_geoTireNode" "terminals new_geoTireNode = 0" "passCnt new_geoTireNode = 0"
  "\<not> terminal_at new_geoTireNode hash"
proof -
  show "inv_node new_geoTireNode" "terminals new_geoTireNode = 0" "passCnt new_geoTireNode = 0"
    by (simp_all add: new_geoTireNode_def)
  show "\<not> terminal_at new_geoTireNode hash"
  proof (cases hash)
    case Nil
    then show ?thesis by (simp add: terminal_at_def new_geoTireNode_def)
  next
    case (Cons c cs)
    have "0 \<le> base32ToIndex c \<and> base32ToIndex c < 32 \<Longrightarrow>
          replicate 32 None ! nat (base32ToIndex c) = (None :: geoTireNode option)"
      by (rule nth_replicate) linarith
    then show ?thesis using Cons by (auto simp: terminal_at_def new_geoTireNode_def)
  qed
qed

lemma GeoAdd_loop_inv:
  assumes "inv_node move" and "slot_code hash" and "\<not> terminal_at move hash"
  shows "inv_node (fst (GeoAdd_loop move hash p g err))
       \<and> terminals (fst (GeoAdd_loop move hash p g err)) = terminals move + 1
       \<and> passCnt (fst (GeoAdd_loop move hash p g err)) = passCnt move"
  using assms
proof (induction hash arbitrary: move)
  case Nil
  then have "\<not> is_end move" by (simp add: terminal_at_def)
  with Nil show ?case by (simp add: inv_node_sel terminals_sel)
next
  case (Cons c hash)
  define i where "i = nat (base32ToIndex c)"
  define ch where
    "ch = (case children move ! i of None \<Rightarrow> new_geoTireNode | Some ch \<Rightarrow> ch)"
  define ch1 where "ch1 = geoTireNode (children ch) (passCnt ch + 1) (is_end ch) (GeoEntry ch)"
  define ch' where "ch' = fst (GeoAdd_loop ch1 hash p g err)"
  have idx: "0 \<le> base32ToIndex c" "base32ToIndex c < 32" and sc: "slot_code hash"
    using Cons.prems(2) by (simp_all add: slot_code_def)
  have len: "length (children move) = 32" and slots: "\<forall>c\<in>set (children move). slot_ok c"
    using Cons.prems(1) by (simp_all add: inv_node_sel)
  have i: "i < length (children move)" using idx len unfolding i_def by linarith
  have step: "fst (GeoAdd_loop move (c # hash) p g err) =
      geoTireNode ((children move)[i := Some ch']) (passCnt move) (is_end move) (GeoEntry move)"
    using idx by (simp add: Let_def case_prod_beta i_def ch_def ch1_def ch'_def)
  have ok: "0 \<le> passCnt ch \<and> passCnt ch = int (terminals ch) \<and> inv_node ch
            \<and> slot_terminals (children move ! i) = terminals ch \<and> \<not> terminal_at ch hash"
  proof (cases "children move ! i")
    case None
    then show ?thesis
      by (simp add: ch_def new_geoTireNode_facts slot_terminals_def)
  next
    case (Some x)
    then have "Some x \<in> set (children move)" using nth_mem [OF i] by simp
    with slots have "0 < passCnt x" "passCnt x = int (terminals x)" "inv_node x"
      by (auto simp: slot_ok_def)
    moreover have "\<not> terminal_at x hash"
      using Cons.prems(3) Some idx by (simp add: terminal_at_def i_def)
    ultimately show ?thesis using Some by (simp add: ch_def slot_terminals_def)
  qed
  have inv1: "inv_node ch1" using ok by (simp add: inv_node_sel ch1_def)
  have "children ch1 = children ch" "is_end ch1 = is_end ch"
    by (simp_all add: ch1_def)
  then have "terminal_at ch1 hash = terminal_at ch hash"
    by (rule terminal_at_cong)
  with ok have nt1: "\<not> terminal_at ch1 hash" by simp
  have t1: "terminals ch1 = terminals ch" by (simp add: terminals_sel ch1_def)
  from Cons.IH [OF inv1 sc nt1]
  have IH: "inv_node ch'" "terminals ch' = terminals ch + 1" "passCnt ch' = passCnt ch + 1"
    by (simp_all add: ch'_def t1) (simp add: ch1_def)
  have "slot_ok (Some ch')"
    using IH ok by (auto simp: slot_ok_def)
  then have "inv_node (fst (GeoAdd_loop move (c # hash) p g err))"
    unfolding step using len slots_update [OF slots, of "Some ch'" i]
    by (simp add: inv_node_sel)
  moreover have "terminals (fst (GeoAdd_loop move (c # hash) p g err)) = terminals move + 1"
    unfolding step
    using sum_list_map_update [OF i, of slot_terminals "Some ch'"] ok IH(2)
    by (simp add: terminals_sel slot_terminals_def)
  ultimately show ?case unfolding step by simp
qed

lemma add_at_inv:
  "inv_node move \<Longrightarrow>
   inv_node (add_at move hash p g)
   \<and> terminals (add_at move hash p g) = terminals move
   \<and> passCnt (add_at move hash p g) = passCnt move"
proof (induction hash arbitrary: move)
  case Nil
  then show ?case by (simp add: inv_node_sel terminals_sel)
next
  case (Cons c hash)
  define i where "i = nat (base32ToIndex c)"
  have len: "length (children move) = 32" and slots: "\<forall>c\<in>set (children move). slot_ok c"
    using Cons.prems by (simp_all add: inv_node_sel)
  show ?case
  proof (cases "children move ! i")
    case None
    then show ?thesis using Cons.prems by (simp add: i_def)
  next
    case (Some ch)
    define ch' where "ch' = add_at ch hash p g"
    have step: "add_at move (c # hash) p g =
        geoTireNode ((children move)[i := Some ch']) (passCnt move) (is_end move) (GeoEntry move)"
      using Some by (simp add: i_def ch'_def)
    show ?thesis
    proof (cases "i < length (children move)")
      case False
      then have "length (children move) \<le> i" by simp
      then have "(children move)[i := Some ch'] = children move"
        by (rule list_update_beyond)
      then show ?thesis unfolding step using Cons.prems
        by (simp add: inv_node_sel terminals_sel)
    next
      case True
      then have "Some ch \<in> set (children move)" using Some nth_mem [OF True] by simp
      with slots have ok: "0 < passCnt ch" "passCnt ch = int (terminals ch)" "inv_node ch"
        by (auto simp: slot_ok_def)
      from Cons.IH [OF ok(3)]
      have IH: "inv_node ch'" "terminals ch' = terminals ch" "passCnt ch' = passCnt ch"
        by (simp_all add: ch'_def)
      have "slot_ok (Some ch')" using IH ok by (simp add: slot_ok_def)
      then have "inv_node (add_at move (c # hash) p g)"
        unfolding step using len slots_update [OF slots, of "Some ch'" i]
        by (simp add: inv_node_sel)
      moreover have "terminals (add_at move (c # hash) p g) = terminals move"
        unfolding step
        using sum_list_map_update [OF True, of slot_terminals "Some ch'"] Some IH(2)
        by (simp add: terminals_sel slot_terminals_def)
      ultimately show ?thesis unfolding step by simp
    qed
  qed
qed

text \<open>
  The invariant is preserved by \<open>GeoDel\<close> on every string, by \<open>GeoAdd\<close> on every point
  (which never reaches the trie), and by the insertion code of \<open>GeoAdd\<close> on every code
  whose symbols decode to slot indices.
\<close>

lemma passCnt_invariant_preserved:
  assumes "inv_node (root t)"
  shows "inv_node (root (fst (GeoDel t hash)))
       \<and> inv_node (root (fst (GeoAdd t points)))
       \<and> (slot_code geoHash \<longrightarrow> inv_node (root (fst (GeoAdd_insert t points geoHash))))"
proof -
  have del: "inv_node (root (fst (GeoDel t hash)))"
  proof (cases "\<exists>n. get t hash = Inr (Some n, None) \<and> is_end n")
    case True
    then obtain n where "get_loop (root t) hash = Inr (Some n, None)" "is_end n"
      by (auto simp: get_def)
    from GeoDel_loop_inv [OF assms this] show ?thesis
      using True by (auto simp: GeoDel_def case_prod_beta)
  next
    case False
    then have "fst (GeoDel t hash) = t"
      by (auto simp: GeoDel_def split: sum.splits prod.splits option.splits)
    then show ?thesis using assms by simp
  qed
  have add: "inv_node (root (fst (GeoAdd t points)))"
    using assms by (simp add: GeoAdd_def GeoHash_panics)
  have ins: "inv_node (root (fst (GeoAdd_insert t points geoHash)))" if sc: "slot_code geoHash"
  proof -
    have pf: "\<forall>c\<in>set geoHash. base32ToIndex c < 32"
      using sc by (simp add: slot_code_def)
    note g = get_loop_path_node [OF pf, of "root t"]
    show ?thesis
    proof (cases "terminal_at (root t) geoHash")
      case True
      then show ?thesis using g add_at_inv [OF assms, of geoHash points geoHash]
        by (auto simp: GeoAdd_insert_def get_def terminal_at_def split: option.splits)
    next
      case False
      from GeoAdd_loop_inv [OF assms sc False] show ?thesis using g False
        by (auto simp: GeoAdd_insert_def get_def terminal_at_def case_prod_beta split: option.splits)
    qed
  qed
  show ?thesis using del add ins by simp
qed


section \<open>Deletion of absent codes\<close>

text \<open>
  Where the walk of \<open>get\<close> cannot panic, a deletion of a string that is not a stored
  code fails with \<open>ErrInvalidHash\<close> and leaves the index as it was.
\<close>

lemma GeoDel_fails_unchanged:
  assumes "panic_free hash" and "\<not> terminal_at (root t) hash"
  shows "GeoDel t hash = (t, Inr (False, Some ErrInvalidHash))"
  using assms get_loop_path_node [of hash "root t"]
  by (auto simp: GeoDel_def get_def panic_free_def terminal_at_def split: option.splits)

lemma GeoEntry_get_add:
  "GeoEntry_get (GeoEntry_add e p g) g = GeoEntry_get e g @ [p]"
  by (simp add: GeoEntry_get_def GeoEntry_add_def Let_def split: option.splits)

section \<open>Insertion followed by lookup\<close>

lemma slots32_sel:
  "slots32 n =
     (length (children n) = 32
      \<and> (\<forall>c\<in>set (children n). case c of None \<Rightarrow> True | Some ch \<Rightarrow> slots32 ch))"
  by (cases n) simp

lemma inv_node_slots32: "inv_node n \<Longrightarrow> slots32 n"
  by (induction n rule: slots32.induct) (auto split: option.splits)

lemma slots32_child:
  assumes "slots32 move" and "0 \<le> j" and "j < 32" and "children move ! nat j = Some ch"
  shows "slots32 ch"
proof -
  have len: "length (children move) = 32" using assms(1) slots32_sel [of move] by simp
  then have "nat j < length (children move)" using assms(2,3) by linarith
  from nth_mem [OF this] have "Some ch \<in> set (children move)" using assms(4) by simp
  then show ?thesis using assms(1) slots32_sel [of move] by auto
qed

lemma slots32_update:
  assumes "slots32 move" and "slots32 ch'"
  shows "slots32 (geoTireNode ((children move)[i := Some ch']) a b c)"
proof -
  have "\<forall>c\<in>set ((children move)[i := Some ch']). case c of None \<Rightarrow> True | Some ch \<Rightarrow> slots32 ch"
    using set_update_subset_insert [of "children move" i "Some ch'"] assms slots32_sel [of move]
    by auto
  then show ?thesis using assms(1) slots32_sel [of move] by simp
qed

lemma slots32_new: "slots32 new_geoTireNode"
  by (simp add: new_geoTireNode_def)

lemma get_loop_shape:
  "get_loop move h = Inr (tgt, e) \<Longrightarrow>
   (tgt = None \<and> e = Some ErrInvalidHash) \<or> (\<exists>n. tgt = Some n \<and> e = None)"
  by (induction h arbitrary: move) (auto simp: Let_def split: if_splits option.splits)

lemma get_loop_found:
  "get_loop move h = Inr (Some n, e) \<Longrightarrow> slot_code h \<and> path_node move h = Some n"
proof (induction h arbitrary: move)
  case Nil
  then show ?case by (simp add: slot_code_def)
next
  case (Cons c h)
  from Cons.prems obtain ch where
    idx: "0 \<le> base32ToIndex c" "base32ToIndex c < 32" and
    ch: "children move ! nat (base32ToIndex c) = Some ch" and
    g: "get_loop ch h = Inr (Some n, e)"
    by (auto simp: Let_def split: if_splits option.splits)
  from Cons.IH [OF g] show ?case using idx ch by (simp add: slot_code_def)
qed



lemma GeoAdd_loop_reaches:
  assumes "slots32 move" and "slot_code hash"
  shows "slots32 (fst (GeoAdd_loop move hash p g err))
       \<and> (\<exists>n'. path_node (fst (GeoAdd_loop move hash p g err)) hash = Some n' \<and> is_end n'
             \<and> p \<in> set (GeoEntry_get (GeoEntry n') g))"
  using assms
proof (induction hash arbitrary: move)
  case Nil
  then show ?case by (simp add: GeoEntry_get_add slots32_sel)
next
  case (Cons c hash)
  define i where "i = nat (base32ToIndex c)"
  define ch where
    "ch = (case children move ! i of None \<Rightarrow> new_geoTireNode | Some ch \<Rightarrow> ch)"
  define ch1 where "ch1 = geoTireNode (children ch) (passCnt ch + 1) (is_end ch) (GeoEntry ch)"
  define ch' where "ch' = fst (GeoAdd_loop ch1 hash p g err)"
  have idx: "0 \<le> base32ToIndex c" "base32ToIndex c < 32" and sc: "slot_code hash"
    using Cons.prems(2) by (simp_all add: slot_code_def)
  have len: "length (children move) = 32"
    using Cons.prems(1) slots32_sel [of move] by simp
  have i: "i < length (children move)" using idx len unfolding i_def by linarith
  have step: "fst (GeoAdd_loop move (c # hash) p g err) =
      geoTireNode ((children move)[i := Some ch']) (passCnt move) (is_end move) (GeoEntry move)"
    using idx by (simp add: Let_def case_prod_beta i_def ch_def ch1_def ch'_def)
  have "slots32 ch"
  proof (cases "children move ! i")
    case None
    then show ?thesis by (simp add: ch_def slots32_new)
  next
    case (Some x)
    then have "slots32 x"
      using slots32_child [OF Cons.prems(1) idx, of x] by (simp add: i_def)
    then show ?thesis using Some by (simp add: ch_def)
  qed
  then have "slots32 ch1" using slots32_sel [of ch] slots32_sel [of ch1] by (simp add: ch1_def)
  from Cons.IH [OF this sc] obtain n' where
    s: "slots32 ch'" and
    n': "path_node ch' hash = Some n'" "is_end n'" "p \<in> set (GeoEntry_get (GeoEntry n') g)"
    by (auto simp: ch'_def)
  have "slots32 (fst (GeoAdd_loop move (c # hash) p g err))"
    unfolding step by (rule slots32_update [OF Cons.prems(1) s])
  moreover have "path_node (fst (GeoAdd_loop move (c # hash) p g err)) (c # hash) = Some n'"
    unfolding step using idx i n'(1) by (simp add: i_def)
  ultimately show ?case using n' by simp
qed

lemma add_at_reaches:
  assumes "slots32 move" and "path_node move hash = Some n"
  shows "slots32 (add_at move hash p g)
       \<and> (\<exists>n'. path_node (add_at move hash p g) hash = Some n' \<and> is_end n' = is_end n
             \<and> p \<in> set (GeoEntry_get (GeoEntry n') g))"
  using assms
proof (induction hash arbitrary: move)
  case Nil
  then show ?case by (auto simp: GeoEntry_get_add slots32_sel)
next
  case (Cons c hash)
  define i where "i = nat (base32ToIndex c)"
  from Cons.prems(2) obtain ch where
    idx: "0 \<le> base32ToIndex c" "base32ToIndex c < 32" and
    ch: "children move ! i = Some ch" and
    pn: "path_node ch hash = Some n"
    by (auto simp: i_def split: if_splits option.splits)
  have len: "length (children move) = 32"
    using Cons.prems(1) slots32_sel [of move] by simp
  have i: "i < length (children move)" using idx len unfolding i_def by linarith
  have "slots32 ch"
    using slots32_child [OF Cons.prems(1) idx, of ch] ch by (simp add: i_def)
  from Cons.IH [OF this pn] obtain n' where
    s: "slots32 (add_at ch hash p g)" and
    n': "path_node (add_at ch hash p g) hash = Some n'" "is_end n' = is_end n"
      "p \<in> set (GeoEntry_get (GeoEntry n') g)"
    by auto
  have step: "add_at move (c # hash) p g =
      geoTireNode ((children move)[i := Some (add_at ch hash p g)]) (passCnt move) (is_end move)
        (GeoEntry move)"
    using ch by (simp add: i_def)
  have "slots32 (add_at move (c # hash) p g)"
    unfolding step by (rule slots32_update [OF Cons.prems(1) s])
  moreover have "path_node (add_at move (c # hash) p g) (c # hash) = Some n'"
    unfolding step using idx i n'(1) by (simp add: i_def)
  ultimately show ?case using n' by simp
qed

lemma GeoAdd_insert_reaches:
  assumes "slots32 (root t)" and "slot_code h"
  shows "slots32 (root (fst (GeoAdd_insert t p h)))
       \<and> (\<exists>n'. path_node (root (fst (GeoAdd_insert t p h))) h = Some n' \<and> is_end n'
             \<and> p \<in> set (GeoEntry_get (GeoEntry n') h))"
proof -
  have pf: "\<forall>c\<in>set h. base32ToIndex c < 32"
    using assms(2) by (simp add: slot_code_def)
  note g = get_loop_path_node [OF pf, of "root t"]
  show ?thesis
  proof (cases "terminal_at (root t) h")
    case True
    then obtain n where n: "path_node (root t) h = Some n" "is_end n"
      by (auto simp: terminal_at_def split: option.splits)
    from add_at_reaches [OF assms(1) n(1), of p h] n show ?thesis
      using g by (auto simp: GeoAdd_insert_def get_def)
  next
    case False
    from GeoAdd_loop_reaches [OF assms, of p h] show ?thesis
      using g False
      by (auto simp: GeoAdd_insert_def get_def terminal_at_def case_prod_beta split: option.splits)
  qed
qed







section \<open>The error returned by an insertion\<close>


lemma GeoAdd_loop_ends_at:
  assumes "slots32 move" and "h \<noteq> [] \<longrightarrow> ends_at (length h) move"
  shows "ends_at (length h) (fst (GeoAdd_loop move h p g err))"
  using assms
proof (induction h arbitrary: move)
  case Nil
  then show ?case by simp
next
  case (Cons c h)
  show ?case
  proof (cases "base32ToIndex c < 0 \<or> 32 \<le> base32ToIndex c")
    case True
    then show ?thesis using Cons.prems by (simp add: Let_def)
  next
    case False
    then have idx: "0 \<le> base32ToIndex c" "base32ToIndex c < 32" by simp_all
    define i where "i = nat (base32ToIndex c)"
    define ch where
      "ch = (case children move ! i of None \<Rightarrow> new_geoTireNode | Some ch \<Rightarrow> ch)"
    define ch1 where "ch1 = geoTireNode (children ch) (passCnt ch + 1) (is_end ch) (GeoEntry ch)"
    define ch' where "ch' = fst (GeoAdd_loop ch1 h p g err)"
    have step: "fst (GeoAdd_loop move (c # h) p g err) =
        geoTireNode ((children move)[i := Some ch']) (passCnt move) (is_end move) (GeoEntry move)"
      using False by (simp add: Let_def case_prod_beta i_def ch_def ch1_def ch'_def)
    have old: "\<forall>x\<in>set (children move). case x of None \<Rightarrow> True | Some y \<Rightarrow> ends_at (length h) y"
      using Cons.prems(2) by simp
    have len: "length (children move) = 32"
      using Cons.prems(1) slots32_sel [of move] by simp
    have i: "i < length (children move)" using idx len unfolding i_def by linarith
    have "slots32 ch"
    proof (cases "children move ! i")
      case None
      then show ?thesis by (simp add: ch_def slots32_new)
    next
      case (Some x)
      then have "slots32 x"
        using slots32_child [OF Cons.prems(1) idx, of x] by (simp add: i_def)
      then show ?thesis using Some by (simp add: ch_def)
    qed
    then have s1: "slots32 ch1" using slots32_sel [of ch] slots32_sel [of ch1] by (simp add: ch1_def)
    have "h \<noteq> [] \<longrightarrow> ends_at (length h) ch1"
    proof
      assume "h \<noteq> []"
      then obtain k where k: "length h = Suc k" by (cases h) auto
      show "ends_at (length h) ch1"
      proof (cases "children move ! i")
        case None
        then show ?thesis by (simp add: k ch1_def ch_def new_geoTireNode_def)
      next
        case (Some x)
        from nth_mem [OF i] Some have "Some x \<in> set (children move)" by simp
        with old have "ends_at (length h) x" by auto
        then show ?thesis using Some by (simp add: k ch1_def ch_def)
      qed
    qed
    from Cons.IH [OF s1 this] have "ends_at (length h) ch'" by (simp add: ch'_def)
    with old have "\<forall>x\<in>set ((children move)[i := Some ch']).
        case x of None \<Rightarrow> True | Some y \<Rightarrow> ends_at (length h) y"
      using set_update_subset_insert [of "children move" i "Some ch'"] by auto
    then show ?thesis unfolding step by simp
  qed
qed

lemma add_at_ends_at:
  "slots32 move \<Longrightarrow> ends_at k move \<Longrightarrow> ends_at k (add_at move h p g)"
proof (induction h arbitrary: move k)
  case Nil
  then show ?case by (cases k) simp_all
next
  case (Cons c h)
  define i where "i = nat (base32ToIndex c)"
  show ?case
  proof (cases "children move ! i")
    case None
    then show ?thesis using Cons.prems by (simp add: i_def)
  next
    case (Some ch)
    have step: "add_at move (c # h) p g =
        geoTireNode ((children move)[i := Some (add_at ch h p g)]) (passCnt move) (is_end move)
          (GeoEntry move)"
      using Some by (simp add: i_def)
    show ?thesis
    proof (cases k)
      case 0
      then show ?thesis unfolding step using Cons.prems by simp
    next
      case (Suc k')
      have old: "\<forall>x\<in>set (children move). case x of None \<Rightarrow> True | Some y \<Rightarrow> ends_at k' y"
        using Cons.prems(2) Suc by simp
      show ?thesis
      proof (cases "i < length (children move)")
        case True
        from nth_mem [OF True] Some have m: "Some ch \<in> set (children move)" by simp
        with old have e: "ends_at k' ch" by auto
        from m Cons.prems(1) slots32_sel [of move] have s: "slots32 ch" by auto
        from Cons.IH [OF s e] have "ends_at k' (add_at ch h p g)" .
        with old have "\<forall>x\<in>set ((children move)[i := Some (add_at ch h p g)]).
            case x of None \<Rightarrow> True | Some y \<Rightarrow> ends_at k' y"
          using set_update_subset_insert [of "children move" i "Some (add_at ch h p g)"] by auto
        then show ?thesis unfolding step Suc by simp
      next
        case False
        then have "length (children move) \<le> i" by simp
        then have "(children move)[i := Some (add_at ch h p g)] = children move"
          by (rule list_update_beyond)
        then show ?thesis unfolding step Suc using old by simp
      qed
    qed
  qed
qed

lemma GeoAdd_insert_ends_at:
  assumes "slots32 (root t)" and "ends_at (length h) (root t)"
  shows "ends_at (length h) (root (fst (GeoAdd_insert t p h)))"
proof -
  have a: "ends_at (length h) (add_at (root t) h p h)"
    by (rule add_at_ends_at [OF assms])
  have b: "ends_at (length h) (fst (GeoAdd_loop (root t) h p h err))" for err
    by (rule GeoAdd_loop_ends_at [OF assms(1)]) (simp add: assms(2))
  show ?thesis using a b assms(2)
    by (simp add: GeoAdd_insert_def case_prod_beta split: sum.splits prod.splits)
qed



section \<open>Effects on the passage counts\<close>

lemma counts_sel:
  "counts n = geoTireNode (map (map_option counts) (children n)) (passCnt n) (is_end n)
                \<lparr>Points = None, Hash = []\<rparr>"
  by (cases n) simp

lemma counts_add_at: "counts (add_at move h p g) = counts move"
proof (induction h arbitrary: move)
  case Nil
  show ?case by (simp add: counts_sel [of move] counts_sel [of "add_at move [] p g"])
next
  case (Cons c h)
  define i where "i = nat (base32ToIndex c)"
  show ?case
  proof (cases "children move ! i")
    case None
    then show ?thesis by (simp add: i_def)
  next
    case (Some ch)
    have "map (map_option counts) ((children move)[i := Some (add_at ch h p g)])
          = map (map_option counts) (children move)"
    proof (cases "i < length (children move)")
      case True
      have "map (map_option counts) ((children move)[i := Some (add_at ch h p g)])
            = (map (map_option counts) (children move))[i := Some (counts ch)]"
        using Cons.IH [of ch] by (simp add: map_update)
      also have "Some (counts ch) = map (map_option counts) (children move) ! i"
        using True Some by simp
      finally show ?thesis by simp
    next
      case False
      then have "length (children move) \<le> i" by simp
      then have "(children move)[i := Some (add_at ch h p g)] = children move"
        by (rule list_update_beyond)
      then show ?thesis by simp
    qed
    then show ?thesis
      using Some by (simp add: i_def counts_sel [of move]
          counts_sel [of "geoTireNode ((children move)[i := Some (add_at ch h p g)]) (passCnt move) (is_end move) (GeoEntry move)"])
  qed
qed

lemma path_node_get_loop:
  "path_node move h = Some n \<Longrightarrow> get_loop move h = Inr (Some n, None)"
  by (induction h arbitrary: move) (auto simp: Let_def split: if_splits option.splits)

lemma GeoDel_loop_not_terminal:
  assumes "slots32 move" and "get_loop move h = Inr (Some n, None)"
  shows "\<not> terminal_at (fst (GeoDel_loop move h)) h"
  using assms
proof (induction h arbitrary: move n)
  case Nil
  then show ?case by (simp add: terminal_at_def)
next
  case (Cons c h)
  define i where "i = nat (base32ToIndex c)"
  from Cons.prems(2) obtain ch where
    idx: "0 \<le> base32ToIndex c" "base32ToIndex c < 32" and
    ch: "children move ! i = Some ch" and
    g: "get_loop ch h = Inr (Some n, None)"
    by (auto simp: Let_def i_def split: if_splits option.splits)
  have len: "length (children move) = 32"
    using Cons.prems(1) slots32_sel [of move] by simp
  have i: "i < length (children move)" using idx len unfolding i_def by linarith
  show ?case
  proof (cases "passCnt ch - 1 = 0")
    case True
    then have step: "fst (GeoDel_loop move (c # h)) =
        geoTireNode ((children move)[i := None]) (passCnt move) (is_end move) (GeoEntry move)"
      using idx ch by (simp add: Let_def i_def)
    show ?thesis unfolding step using idx i by (simp add: terminal_at_def i_def)
  next
    case False
    define ch1 where "ch1 = geoTireNode (children ch) (passCnt ch - 1) (is_end ch) (GeoEntry ch)"
    define ch' where "ch' = fst (GeoDel_loop ch1 h)"
    have step: "fst (GeoDel_loop move (c # h)) =
        geoTireNode ((children move)[i := Some ch']) (passCnt move) (is_end move) (GeoEntry move)"
      using idx ch False by (simp add: Let_def i_def case_prod_beta ch1_def ch'_def)
    have "slots32 ch" using slots32_child [OF Cons.prems(1) idx, of ch] ch by (simp add: i_def)
    then have s1: "slots32 ch1" using slots32_sel [of ch] slots32_sel [of ch1] by (simp add: ch1_def)
    have same: "children ch = children ch1" "is_end ch = is_end ch1"
      by (simp_all add: ch1_def)
    from get_loop_found_same_end [OF same g]
    obtain n' where g1: "get_loop ch1 h = Inr (Some n', None)" by auto
    from Cons.IH [OF s1 g1] have "\<not> terminal_at ch' h" by (simp add: ch'_def)
    then show ?thesis unfolding step using idx i by (simp add: terminal_at_def i_def)
  qed
qed

text \<open>
  The effect of a deletion of a stored code: it returns true, the invariant holds after
  it, one code less is stored, and the deleted code is not stored any more. Together with
  the invariant this fixes every count: each node of the path has lost one, and the first
  one that reached zero is gone with its subtree.
\<close>

lemma GeoDel_stored_code:
  assumes "inv_node (root t)" and "terminal_at (root t) h"
  shows "snd (GeoDel t h) = Inr (True, None)
       \<and> inv_node (root (fst (GeoDel t h)))
       \<and> terminals (root (fst (GeoDel t h))) + 1 = terminals (root t)
       \<and> \<not> terminal_at (root (fst (GeoDel t h))) h"
proof -
  from assms(2) obtain n where n: "path_node (root t) h = Some n" "is_end n"
    by (auto simp: terminal_at_def split: option.splits)
  have g: "get_loop (root t) h = Inr (Some n, None)"
    using n(1) by (rule path_node_get_loop)
  have d: "GeoDel t h = (t\<lparr>root := fst (GeoDel_loop (root t) h)\<rparr>, snd (GeoDel_loop (root t) h))"
    using g n(2) by (simp add: GeoDel_def get_def case_prod_beta)
  show ?thesis
    unfolding d
    using GeoDel_loop_inv [OF assms(1) g n(2)] GeoDel_loop_returns [OF g]
      GeoDel_loop_not_terminal [OF inv_node_slots32 [OF assms(1)] g]
    by simp
qed

text \<open>A deletion of a string that is not a stored code changes nothing.\<close>

lemma GeoDel_absent_code:
  assumes "\<not> terminal_at (root t) h"
  shows "fst (GeoDel t h) = t"
proof (cases "get t h")
  case (Inl x)
  then show ?thesis by (simp add: GeoDel_def)
next
  case (Inr y)
  obtain tgt e where y: "y = (tgt, e)" by (cases y)
  from get_loop_shape [of "root t" h tgt e] Inr y
  consider "tgt = None" "e = Some ErrInvalidHash" | n where "tgt = Some n" "e = None"
    by (auto simp: get_def)
  then show ?thesis
  proof cases
    case 1
    then show ?thesis using Inr y by (simp add: GeoDel_def)
  next
    case 2
    with Inr y have "get_loop (root t) h = Inr (Some n, None)" by (simp add: get_def)
    from get_loop_found [OF this] assms have "\<not> is_end n" by (simp add: terminal_at_def)
    then show ?thesis using Inr y 2 by (simp add: GeoDel_def)
  qed
qed

text \<open>
  The effect of the insertion code on a code that is not stored: the invariant holds after
  it, one code more is stored, and the code is stored; so each node of its path has gained
  one.
\<close>

lemma GeoAdd_insert_new_code:
  assumes "inv_node (root t)" and "slot_code h" and "\<not> terminal_at (root t) h"
  shows "inv_node (root (fst (GeoAdd_insert t p h)))
       \<and> terminals (root (fst (GeoAdd_insert t p h))) = terminals (root t) + 1
       \<and> terminal_at (root (fst (GeoAdd_insert t p h))) h"
proof -
  have pf: "\<forall>c\<in>set h. base32ToIndex c < 32"
    using assms(2) by (simp add: slot_code_def)
  have i: "fst (GeoAdd_insert t p h) = t\<lparr>root := fst (GeoAdd_loop (root t) h p h (snd (projr (get t h))))\<rparr>"
    using get_loop_path_node [OF pf, of "root t"] assms(3)
    by (auto simp: GeoAdd_insert_def get_def terminal_at_def case_prod_beta split: option.splits)
  have "terminal_at (root (fst (GeoAdd_insert t p h))) h"
    using GeoAdd_insert_reaches [OF inv_node_slots32 [OF assms(1)] assms(2), of p]
    by (auto simp: terminal_at_def)
  then show ?thesis
    using GeoAdd_loop_inv [OF assms, of p h "snd (projr (get t h))"] by (simp add: i)
qed

text \<open>
  The effect of the insertion code on a stored code: no count, no flag and no slot
  changes.
\<close>

lemma GeoAdd_insert_stored_code:
  assumes "inv_node (root t)" and "terminal_at (root t) h"
  shows "inv_node (root (fst (GeoAdd_insert t p h)))
       \<and> counts (root (fst (GeoAdd_insert t p h))) = counts (root t)"
proof -
  from assms(2) obtain n where n: "path_node (root t) h = Some n" "is_end n"
    by (auto simp: terminal_at_def split: option.splits)
  have g: "get t h = Inr (Some n, None)"
    using path_node_get_loop [OF n(1)] by (simp add: get_def)
  have i: "fst (GeoAdd_insert t p h) = t\<lparr>root := add_at (root t) h p h\<rparr>"
    using g n(2) by (simp add: GeoAdd_insert_def)
  show ?thesis using add_at_inv [OF assms(1), of h p h] by (simp add: i counts_add_at)
qed


end
